theory Spec2Isabelle
  imports
    Complex_Main
    "HOL-Library.Sublist"
    "HOL-Library.Char_ord"
    "HOL-Library.List_Lexorder"
    "HOL-Library.Product_Lexorder"
    "HOL-Library.Multiset"
begin

section \<open>Meal-Counter-Pro: the extraction and layout core of class MealCounter\<close>

text \<open>
  The development embeds the four methods of \<^verbatim>\<open>MealCounter\<close>
  (\<^verbatim>\<open>src/meal_counter_automation.py\<close>; \<^verbatim>\<open>src/app.py\<close> carries the same
  code): \<^verbatim>\<open>categorize_meal\<close>, \<^verbatim>\<open>extract_meals_from_page\<close>,
  \<^verbatim>\<open>add_totals_to_page\<close> and \<^verbatim>\<open>process_pdf\<close>.

  Scope of the model.
  \<^item> A Python \<^verbatim>\<open>str\<close> is a \<open>string\<close>; a \<open>char\<close> stands for the code point
    of the same number, so the text covered is the one made of code points 0..255.
    On these, \<^verbatim>\<open>str.strip\<close>, \<^verbatim>\<open>str.lower\<close> and the classes \<^verbatim>\<open>\d\<close>, \<^verbatim>\<open>\s\<close>,
    \<^verbatim>\<open>\w\<close> of \<^verbatim>\<open>re\<close> are written out below as Python 3 has them. Code points above
    255 (further decimal digits, further letters, case mappings that change the
    length of a string) are outside the model.
  \<^item> Python's \<^verbatim>\<open>int\<close> is \<open>int\<close>. The conversion \<^verbatim>\<open>int(s)\<close> is modelled on
    digit strings of any length; an interpreter that limits the length of a digit
    string it converts (4300 digits by default in recent versions) raises on a
    longer one, and such lines are outside the model.
  \<^item> The \<^verbatim>\<open>defaultdict(int)\<close> is an association list in insertion order with
    distinct keys, as a Python dictionary iterates.
  \<^item> Page sizes and rectangle coordinates are Python floats. Their arithmetic is
    not defined here: it is a parameter of the layout function (record \<open>float_ops\<close>),
    so that what is proved of the layout holds for whatever the float
    operations compute.
  \<^item> Opening and saving the document, the progress callback and the styling of an
    annotation are left to the PDF library and are not modelled.
\<close>

subsection \<open>Characters and strings\<close>

definition code_point :: "char \<Rightarrow> nat" where
  "code_point c = of_char c"

text \<open>\<^verbatim>\<open>str.isspace\<close>, which is also what \<^verbatim>\<open>strip()\<close> removes and what \<^verbatim>\<open>\s\<close> matches.\<close>

definition isspace :: "char \<Rightarrow> bool" where
  "isspace c =
     (let n = code_point c
      in (9 \<le> n \<and> n \<le> 13) \<or> (28 \<le> n \<and> n \<le> 32) \<or> n = 133 \<or> n = 160)"

text \<open>The class \<^verbatim>\<open>\d\<close>: the decimal digits.\<close>

definition isdigit :: "char \<Rightarrow> bool" where
  "isdigit c = (let n = code_point c in 48 \<le> n \<and> n \<le> 57)"

text \<open>The class \<^verbatim>\<open>\w\<close>: alphanumeric characters and the underscore.\<close>

definition isword :: "char \<Rightarrow> bool" where
  "isword c =
     (let n = code_point c
      in (48 \<le> n \<and> n \<le> 57) \<or> (65 \<le> n \<and> n \<le> 90) \<or> n = 95 \<or> (97 \<le> n \<and> n \<le> 122)
         \<or> n = 170 \<or> n = 178 \<or> n = 179 \<or> n = 181 \<or> n = 185 \<or> n = 186
         \<or> (188 \<le> n \<and> n \<le> 190) \<or> (192 \<le> n \<and> n \<le> 214)
         \<or> (216 \<le> n \<and> n \<le> 246) \<or> (248 \<le> n \<and> n \<le> 255))"

definition lower_char :: "char \<Rightarrow> char" where
  "lower_char c =
     (let n = code_point c
      in if (65 \<le> n \<and> n \<le> 90) \<or> (192 \<le> n \<and> n \<le> 214) \<or> (216 \<le> n \<and> n \<le> 222)
         then char_of (n + 32) else c)"

definition lower :: "string \<Rightarrow> string" where
  "lower s = map lower_char s"

definition strip :: "string \<Rightarrow> string" where
  "strip s = rev (dropWhile isspace (rev (dropWhile isspace s)))"

text \<open>\<^verbatim>\<open>sub in s\<close> on strings: \<open>sub\<close> occurs in \<open>s\<close> as a contiguous block.\<close>

fun str_in :: "string \<Rightarrow> string \<Rightarrow> bool" where
  "str_in sub [] = (sub = [])"
| "str_in sub (c # cs) = (prefix sub (c # cs) \<or> str_in sub cs)"

text \<open>\<^verbatim>\<open>text.split('\n')\<close>; the result is never empty.\<close>

fun split_nl :: "string \<Rightarrow> string list" where
  "split_nl [] = [[]]"
| "split_nl (c # cs) =
     (if c = CHR 0x0A then [] # split_nl cs
      else (c # hd (split_nl cs)) # tl (split_nl cs))"

text \<open>\<^verbatim>\<open>str(n)\<close> for an integer, as the f-string of the layout prints a total.\<close>

definition digit_char :: "nat \<Rightarrow> char" where
  "digit_char d = char_of (48 + d)"

fun str_of_nat :: "nat \<Rightarrow> string" where
  "str_of_nat n = (if n < 10 then [digit_char n] else str_of_nat (n div 10) @ [digit_char (n mod 10)])"

declare str_of_nat.simps [simp del]

definition str_of_int :: "int \<Rightarrow> string" where
  "str_of_int k = (if k < 0 then CHR ''-'' # str_of_nat (nat (- k)) else str_of_nat (nat k))"

subsection \<open>The regular expressions of the extractor\<close>

text \<open>
  \<^verbatim>\<open>re.match\<close> anchors at the start of the string only. \<^verbatim>\<open>$\<close> holds at the end of
  the string and just before a newline that ends it.
\<close>

definition at_end :: "string \<Rightarrow> bool" where
  "at_end s = (s = [] \<or> s = [CHR 0x0A])"

text \<open>
  \<^verbatim>\<open>\d{2}\s+\w+\<close>. No character is both in \<^verbatim>\<open>\s\<close> and in \<^verbatim>\<open>\w\<close>, so the match
  exists exactly when the longest run of spaces after the two digits is not empty and
  is followed by a word character.
\<close>

fun re_day_month :: "string \<Rightarrow> bool" where
  "re_day_month (a # b # c # rest) =
     (isdigit a \<and> isdigit b \<and> isspace c \<and>
      (case dropWhile isspace rest of [] \<Rightarrow> False | d # _ \<Rightarrow> isword d))"
| "re_day_month _ = False"

text \<open>\<^verbatim>\<open>\d{4}$\<close>\<close>

fun re_four_digits :: "string \<Rightarrow> bool" where
  "re_four_digits (a # b # c # d # rest) =
     (isdigit a \<and> isdigit b \<and> isdigit c \<and> isdigit d \<and> at_end rest)"
| "re_four_digits _ = False"

text \<open>\<^verbatim>\<open>\d{2}/\d{2}/\d{2}\<close>\<close>

fun re_date :: "string \<Rightarrow> bool" where
  "re_date (a # b # s1 # c # d # s2 # e # f # rest) =
     (isdigit a \<and> isdigit b \<and> s1 = CHR ''/'' \<and> isdigit c \<and> isdigit d \<and> s2 = CHR ''/''
      \<and> isdigit e \<and> isdigit f)"
| "re_date _ = False"

text \<open>\<^verbatim>\<open>^\d+$\<close>\<close>

definition re_int :: "string \<Rightarrow> bool" where
  "re_int s = (takeWhile isdigit s \<noteq> [] \<and> at_end (dropWhile isdigit s))"

text \<open>
  \<^verbatim>\<open>int(s)\<close> on a string that \<^verbatim>\<open>^\d+$\<close> matches, the only place where the source
  calls it: the decimal value of the digits (\<^verbatim>\<open>int\<close> ignores the white space around
  them, and leading zeros are allowed).
\<close>

definition digit_val :: "char \<Rightarrow> int" where
  "digit_val c = int (code_point c) - 48"

definition py_int :: "string \<Rightarrow> int" where
  "py_int s = foldl (\<lambda>a c. 10 * a + digit_val c) 0 (takeWhile isdigit s)"

subsection \<open>categorize_meal\<close>

definition categorize_meal :: "string \<Rightarrow> string" where
  "categorize_meal meal_name =
     (let meal_lower = lower meal_name
      in if str_in ''beef'' meal_lower \<or> str_in ''beefy'' meal_lower then ''Beef Meal''
         else if str_in ''lentil'' meal_lower then ''Lentil Meal''
         else if str_in ''chicken'' meal_lower then ''Chicken Meal''
         else if str_in ''vegetarian'' meal_lower \<or> str_in ''veggie'' meal_lower
           then ''Vegetarian Meal''
         else if str_in ''fish'' meal_lower then ''Fish Meal''
         else strip meal_name)"

text \<open>
  The rule list as the specification words it: an ordered list of keyword sets with
  their category, the first rule with a matching keyword wins, and the trimmed name
  is the fallback.
\<close>

definition category_rules :: "(string list \<times> string) list" where
  "category_rules =
     [([''beef'', ''beefy''], ''Beef Meal''),
      ([''lentil''], ''Lentil Meal''),
      ([''chicken''], ''Chicken Meal''),
      ([''vegetarian'', ''veggie''], ''Vegetarian Meal''),
      ([''fish''], ''Fish Meal'')]"

definition rule_matches :: "string \<Rightarrow> string list \<times> string \<Rightarrow> bool" where
  "rule_matches name r = list_ex (\<lambda>k. str_in k (lower name)) (fst r)"

definition first_match_category :: "string \<Rightarrow> string" where
  "first_match_category name =
     (case find (rule_matches name) category_rules of
        Some r \<Rightarrow> snd r
      | None \<Rightarrow> strip name)"

subsection \<open>extract_meals_from_page\<close>

definition stop_words :: "string list" where
  "stop_words = [''Date'', ''School'', ''Meal'', ''Quantity'', ''Grade'', ''Class'', ''Diner'', ''Cycle 5'']"

text \<open>The list of the continuation test (line 62 of the source).\<close>

definition continuation_stop_words :: "string list" where
  "continuation_stop_words = [''Date'', ''School'', ''Meal'', ''Quantity'', ''Grade'', ''Class'', ''Diner'']"

definition food_keywords :: "string list" where
  "food_keywords =
     [''pasta'', ''pizza'', ''burger'', ''salad'', ''soup'', ''rice'', ''chicken'', ''beef'',
      ''lentil'', ''fish'']"

text \<open>The three tests that skip a line (lines 45, 49 and 53), on the stripped line.\<close>

definition is_noise :: "string \<Rightarrow> bool" where
  "is_noise line =
     (if line = [] \<or> line \<in> set stop_words then True
      else if re_day_month line \<or> re_four_digits line \<or> re_date line then True
      else str_in ''total'' (lower line))"

definition has_keyword :: "string \<Rightarrow> bool" where
  "has_keyword line = list_ex (\<lambda>keyword. str_in keyword (lower line)) food_keywords"

text \<open>Lines 60 to 62: whether the line after cursor \<open>i\<close> is appended to the name.\<close>

definition merges_next :: "string list \<Rightarrow> nat \<Rightarrow> bool" where
  "merges_next lines i =
     (i + 1 < length lines \<and>
      (let next_line = strip (lines ! (i + 1))
       in next_line \<noteq> [] \<and> \<not> re_int next_line \<and> \<not> re_day_month next_line
          \<and> next_line \<notin> set continuation_stop_words))"

text \<open>
  Lines 66 to 73: the \<^verbatim>\<open>for j in range(i + 1, min(i + 5, len(lines)))\<close> loop with its
  \<^verbatim>\<open>break\<close>, from \<open>j\<close> up to \<open>stop\<close>; the result is the value that the variable
  \<^verbatim>\<open>quantity\<close> holds after the loop, 0 when nothing was found.
\<close>

function scan_quantity :: "string list \<Rightarrow> nat \<Rightarrow> nat \<Rightarrow> int" where
  "scan_quantity lines j stop =
     (if j < stop then
        (if re_int (strip (lines ! j)) \<and> 1 \<le> py_int (strip (lines ! j))
            \<and> py_int (strip (lines ! j)) \<le> 100
         then py_int (strip (lines ! j))
         else scan_quantity lines (j + 1) stop)
      else 0)"
  by pat_completeness auto
termination
  by (relation "measure (\<lambda>(lines, j, stop). stop - j)") auto

declare scan_quantity.simps [simp del]

text \<open>
  One pass through the body of the \<^verbatim>\<open>while\<close> loop at cursor \<open>i < len(lines)\<close>:
  the pair (name, quantity) that the pass adds to \<^verbatim>\<open>meal_counts\<close>, if it adds one,
  and the cursor after the pass.
\<close>

definition parse_at :: "string list \<Rightarrow> nat \<Rightarrow> (string \<times> int) option \<times> nat" where
  "parse_at lines i =
     (let line = strip (lines ! i)
      in if is_noise line then (None, i + 1)
         else if has_keyword line then
           (let merged = merges_next lines i;
                meal_name = (if merged then line @ '' '' @ strip (lines ! (i + 1)) else line);
                i' = (if merged then i + 1 else i);
                quantity = scan_quantity lines (i' + 1) (min (i' + 5) (length lines))
            in (if quantity > 0 then Some (meal_name, quantity) else None, i' + 1))
         else (None, i + 1))"

text \<open>\<^verbatim>\<open>meal_counts[k] += q\<close> on a \<^verbatim>\<open>defaultdict(int)\<close>.\<close>

fun dd_add :: "(string \<times> int) list \<Rightarrow> string \<Rightarrow> int \<Rightarrow> (string \<times> int) list" where
  "dd_add [] k q = [(k, 0 + q)]"
| "dd_add ((k', v) # m) k q = (if k' = k then (k', v + q) # m else (k', v) # dd_add m k q)"

definition add_record :: "(string \<times> int) option \<Rightarrow> (string \<times> int) list \<Rightarrow> (string \<times> int) list" where
  "add_record r meal_counts =
     (case r of
        None \<Rightarrow> meal_counts
      | Some (meal_name, quantity) \<Rightarrow> dd_add meal_counts (categorize_meal meal_name) quantity)"

function extract_loop :: "string list \<Rightarrow> nat \<Rightarrow> (string \<times> int) list \<Rightarrow> (string \<times> int) list" where
  "extract_loop lines i meal_counts =
     (if i < length lines
      then extract_loop lines (snd (parse_at lines i)) (add_record (fst (parse_at lines i)) meal_counts)
      else meal_counts)"
  by pat_completeness auto
termination
proof (relation "measure (\<lambda>(lines, i, meal_counts). length lines - i)")
  show "wf (measure (\<lambda>(lines, i, meal_counts). length lines - i))"
    by simp
next
  fix lines :: "string list" and i :: nat and meal_counts :: "(string \<times> int) list"
  assume "i < length lines"
  moreover have "i < snd (parse_at lines i)"
    by (simp add: parse_at_def Let_def)
  ultimately show "((lines, snd (parse_at lines i), add_record (fst (parse_at lines i)) meal_counts),
                    (lines, i, meal_counts))
                   \<in> measure (\<lambda>(lines, i, meal_counts). length lines - i)"
    by simp
qed

declare extract_loop.simps [simp del]

definition extract_lines :: "string list \<Rightarrow> (string \<times> int) list" where
  "extract_lines lines = extract_loop lines 0 []"

text \<open>
  The pairs (name, quantity) that the loop adds from cursor \<open>i\<close> on, in order: the
  records of the page, which the source adds to \<^verbatim>\<open>meal_counts\<close> one by one without
  keeping them.
\<close>

function records :: "string list \<Rightarrow> nat \<Rightarrow> (string \<times> int) list" where
  "records lines i =
     (if i < length lines
      then (case fst (parse_at lines i) of None \<Rightarrow> [] | Some r \<Rightarrow> [r])
           @ records lines (snd (parse_at lines i))
      else [])"
  by pat_completeness auto
termination
proof (relation "measure (\<lambda>(lines, i). length lines - i)")
  show "wf (measure (\<lambda>(lines, i). length lines - i))"
    by simp
next
  fix lines :: "string list" and i :: nat
  assume "i < length lines"
  moreover have "i < snd (parse_at lines i)"
    by (simp add: parse_at_def Let_def)
  ultimately show "((lines, snd (parse_at lines i)), (lines, i))
                   \<in> measure (\<lambda>(lines, i). length lines - i)"
    by simp
qed

declare records.simps [simp del]

definition aggregate :: "(string \<times> int) list \<Rightarrow> (string \<times> int) list \<Rightarrow> (string \<times> int) list" where
  "aggregate recs meal_counts = fold (\<lambda>r. add_record (Some r)) recs meal_counts"

subsection \<open>Pages, add_totals_to_page and process_pdf\<close>

text \<open>
  The arithmetic of Python floats, as far as the layout uses it: the conversion of an
  \<^verbatim>\<open>int\<close> operand, the literal \<^verbatim>\<open>9.6\<close>, and the four operations.
\<close>

record 'f float_ops =
  float_of_int :: "int \<Rightarrow> 'f"
  float_9_6 :: 'f
  float_add :: "'f \<Rightarrow> 'f \<Rightarrow> 'f"
  float_sub :: "'f \<Rightarrow> 'f \<Rightarrow> 'f"
  float_mul :: "'f \<Rightarrow> 'f \<Rightarrow> 'f"
  float_div :: "'f \<Rightarrow> 'f \<Rightarrow> 'f"

text \<open>
  A FreeText annotation: its rectangle (x_left, y_top, x_right, y_bottom) and its
  text. Font, size, colours, alignment and border are the same constants for every
  annotation.
\<close>

record 'f annot =
  annot_rect :: "'f \<times> 'f \<times> 'f \<times> 'f"
  annot_text :: string

record 'f page =
  get_text :: string
  rect_width :: 'f
  rect_height :: 'f
  annots :: "'f annot list"

definition extract_meals_from_page :: "'f page \<Rightarrow> (string \<times> int) list" where
  "extract_meals_from_page page = extract_lines (split_nl (get_text page))"

text \<open>The body of the \<^verbatim>\<open>for\<close> loop of \<^verbatim>\<open>add_totals_to_page\<close> (lines 99 to 122).\<close>

definition totals_annot ::
  "'f float_ops \<Rightarrow> 'f \<Rightarrow> 'f \<Rightarrow> nat \<times> string \<times> int \<Rightarrow> 'f annot" where
  "totals_annot ops page_width start_y e =
     (case e of (i, meal_type, total') \<Rightarrow>
        (let line_height = 22;
             text = meal_type @ '' Total: '' @ str_of_int total';
             y_top = float_add ops start_y (float_of_int ops (int i * line_height));
             y_bottom = float_add ops y_top (float_of_int ops line_height);
             text_width = float_mul ops (float_of_int ops (int (length text))) (float_9_6 ops);
             x_left = float_div ops (float_sub ops page_width text_width) (float_of_int ops 2);
             x_right = float_add ops x_left text_width
         in \<lparr>annot_rect = (x_left, y_top, x_right, y_bottom), annot_text = text\<rparr>))"

definition add_totals_to_page ::
  "'f float_ops \<Rightarrow> 'f page \<Rightarrow> (string \<times> int) list \<Rightarrow> 'f page" where
  "add_totals_to_page ops page meal_totals =
     (let page_width = rect_width page;
          page_height = rect_height page;
          sorted_meals = sort meal_totals;
          line_height = 22;
          start_y = float_sub ops (float_sub ops page_height (float_of_int ops 90))
                      (float_of_int ops (int (length sorted_meals) * line_height))
      in page\<lparr>annots := annots page
                 @ map (totals_annot ops page_width start_y) (enumerate 0 sorted_meals)\<rparr>)"

text \<open>One pass through the body of the page loop of \<^verbatim>\<open>process_pdf\<close> (lines 136 to 141).\<close>

definition process_page :: "'f float_ops \<Rightarrow> 'f page \<Rightarrow> 'f page" where
  "process_page ops page =
     (let meal_totals = extract_meals_from_page page
      in if meal_totals \<noteq> [] then add_totals_to_page ops page meal_totals else page)"

function process_pages :: "'f float_ops \<Rightarrow> 'f page list \<Rightarrow> nat \<Rightarrow> 'f page list" where
  "process_pages ops doc page_num =
     (if page_num < length doc
      then process_pages ops (doc[page_num := process_page ops (doc ! page_num)]) (page_num + 1)
      else doc)"
  by pat_completeness auto
termination
  by (relation "measure (\<lambda>(ops, doc, page_num). length doc - page_num)") auto

declare process_pages.simps [simp del]

text \<open>The document after the loop, which is the one that \<^verbatim>\<open>process_pdf\<close> saves.\<close>

definition process_pdf :: "'f float_ops \<Rightarrow> 'f page list \<Rightarrow> 'f page list" where
  "process_pdf ops doc = process_pages ops doc 0"

text \<open>Exact rational arithmetic, an instance of the float operations used in examples.\<close>

definition rat_ops :: "rat float_ops" where
  "rat_ops = \<lparr>float_of_int = of_int, float_9_6 = 48 / 5, float_add = (+), float_sub = (-),
              float_mul = (*), float_div = (/)\<rparr>"

subsection \<open>Notions of the specification\<close>

text \<open>A bare integer string: one decimal digit or more and nothing else.\<close>

definition bare_int :: "string \<Rightarrow> bool" where
  "bare_int s = (s \<noteq> [] \<and> list_all isdigit s)"

text \<open>A line that, once trimmed, is a bare integer whose value lies in the range 1 to 100.\<close>

definition in_range :: "string \<Rightarrow> bool" where
  "in_range l = (bare_int (strip l) \<and> 1 \<le> py_int (strip l) \<and> py_int (strip l) \<le> 100)"

text \<open>
  For a name line at cursor \<open>i\<close>: the index of the last line of the name, the name
  with its continuation, and the lookahead window, which is made of the 4 lines after
  the name or of as many as the page still has.
\<close>

definition name_end :: "string list \<Rightarrow> nat \<Rightarrow> nat" where
  "name_end lines i = (if merges_next lines i then i + 1 else i)"

definition meal_name_at :: "string list \<Rightarrow> nat \<Rightarrow> string" where
  "meal_name_at lines i =
     (if merges_next lines i then strip (lines ! i) @ '' '' @ strip (lines ! (i + 1))
      else strip (lines ! i))"

definition window :: "string list \<Rightarrow> nat \<Rightarrow> string list" where
  "window lines i = take 4 (drop (name_end lines i + 1) lines)"

text \<open>
  A candidate line with a food keyword: the line that starts a meal record when the
  cursor is on it.
\<close>

definition name_line :: "string \<Rightarrow> bool" where
  "name_line l = (\<not> is_noise (strip l) \<and> has_keyword (strip l))"

text \<open>A line that the continuation rule of the specification accepts, with all eight stop words.\<close>

definition continuation_line :: "string \<Rightarrow> bool" where
  "continuation_line l =
     (strip l \<noteq> [] \<and> \<not> bare_int (strip l) \<and> \<not> re_day_month (strip l) \<and> strip l \<notin> set stop_words)"

text \<open>
  A self-contained meal block: a name line, at most one continuation line, and then
  at once the quantity line of the block, in range. Any other segment of a page made of
  segments is a single line on which no record starts.
\<close>

fun meal_block :: "string list \<Rightarrow> bool" where
  "meal_block [n, q] = (name_line n \<and> in_range q)"
| "meal_block [n, c, q] = (name_line n \<and> continuation_line c \<and> in_range q)"
| "meal_block _ = False"

fun block_record :: "string list \<Rightarrow> string \<times> int" where
  "block_record [n, c, q] = (strip n @ '' '' @ strip c, py_int (strip q))"
| "block_record b = (strip (hd b), py_int (strip (last b)))"

definition segment :: "string list \<Rightarrow> bool" where
  "segment b = (meal_block b \<or> (length b = 1 \<and> \<not> name_line (hd b)))"

definition segment_records :: "string list \<Rightarrow> (string \<times> int) list" where
  "segment_records b = (if meal_block b then [block_record b] else [])"

text \<open>The sum of the quantities of the records whose category is \<open>k\<close>.\<close>

definition category_sum :: "(string \<times> int) list \<Rightarrow> string \<Rightarrow> int" where
  "category_sum recs k = sum_list (map snd (filter (\<lambda>r. categorize_meal (fst r) = k) recs))"

section \<open>Properties\<close>

subsection \<open>Substrings\<close>

lemma str_in_sublist: "str_in sub s = sublist sub s"
  by (induction s) (simp_all add: sublist_Cons_right)

lemma beefy_beef: "str_in ''beefy'' s \<Longrightarrow> str_in ''beef'' s"
proof -
  assume "str_in ''beefy'' s"
  then have "sublist ''beefy'' s"
    by (simp add: str_in_sublist)
  moreover have "sublist ''beef'' ''beefy''"
    by (rule prefix_imp_sublist) simp
  ultimately have "sublist ''beef'' s"
    by (rule sublist_order.order.trans[rotated])
  then show ?thesis
    by (simp add: str_in_sublist)
qed

subsection \<open>The categorizer\<close>

text \<open>
  Claim C2, as amended. \<open>categorize_meal\<close> is total and returns the category of the
  first rule, in the order Beef, Lentil, Chicken, Vegetarian, Fish, one of whose
  keywords occurs in the lower-cased name, and the trimmed name when no rule matches.
  Every name with both \<open>beef\<close> and \<open>fish\<close> is a Beef Meal. A name with both
  \<open>chicken\<close> and \<open>fish\<close> is a Chicken Meal when it has neither \<open>beef\<close> nor
  \<open>lentil\<close>, the two rules that come before Chicken.
\<close>

theorem categorize_meal_priority:
  "categorize_meal name = first_match_category name
   \<and> (str_in ''beef'' (lower name) \<and> str_in ''fish'' (lower name)
        \<longrightarrow> categorize_meal name = ''Beef Meal'')
   \<and> (str_in ''chicken'' (lower name) \<and> str_in ''fish'' (lower name)
        \<and> \<not> str_in ''beef'' (lower name) \<and> \<not> str_in ''lentil'' (lower name)
        \<longrightarrow> categorize_meal name = ''Chicken Meal'')
   \<and> (\<not> list_ex (rule_matches name) category_rules \<longrightarrow> categorize_meal name = strip name)"
proof -
  have 1: "categorize_meal name = first_match_category name"
    by (simp add: categorize_meal_def first_match_category_def category_rules_def
        rule_matches_def Let_def)
  have 2: "str_in ''beef'' (lower name) \<Longrightarrow> categorize_meal name = ''Beef Meal''"
    by (simp add: categorize_meal_def Let_def)
  have 3: "str_in ''chicken'' (lower name) \<Longrightarrow> \<not> str_in ''beef'' (lower name)
      \<Longrightarrow> \<not> str_in ''lentil'' (lower name) \<Longrightarrow> categorize_meal name = ''Chicken Meal''"
    using beefy_beef[of "lower name"] by (auto simp add: categorize_meal_def Let_def)
  have 4: "\<not> list_ex (rule_matches name) category_rules \<Longrightarrow> categorize_meal name = strip name"
    by (simp add: categorize_meal_def category_rules_def rule_matches_def Let_def)
  from 1 2 3 4 show ?thesis
    by blast
qed

theorem categorize_meal_priority_witness:
  "str_in ''beef'' (lower ''Beef and Fish Stew'') \<and> str_in ''fish'' (lower ''Beef and Fish Stew'')
   \<and> categorize_meal ''Beef and Fish Stew'' = ''Beef Meal''
   \<and> str_in ''chicken'' (lower ''Chicken Fish Mix'') \<and> str_in ''fish'' (lower ''Chicken Fish Mix'')
   \<and> \<not> str_in ''beef'' (lower ''Chicken Fish Mix'') \<and> \<not> str_in ''lentil'' (lower ''Chicken Fish Mix'')
   \<and> categorize_meal ''Chicken Fish Mix'' = ''Chicken Meal''
   \<and> \<not> list_ex (rule_matches '' Pasta '') category_rules
   \<and> categorize_meal '' Pasta '' = ''Pasta''"
proof -
  have a: "str_in ''beef'' (lower ''Beef and Fish Stew'')
           \<and> str_in ''fish'' (lower ''Beef and Fish Stew'')"
    by code_simp
  have b: "str_in ''chicken'' (lower ''Chicken Fish Mix'') \<and> str_in ''fish'' (lower ''Chicken Fish Mix'')
           \<and> \<not> str_in ''beef'' (lower ''Chicken Fish Mix'')
           \<and> \<not> str_in ''lentil'' (lower ''Chicken Fish Mix'')"
    by code_simp
  have c: "\<not> list_ex (rule_matches '' Pasta '') category_rules"
    by code_simp
  have d: "strip '' Pasta '' = ''Pasta''"
    by code_simp
  show ?thesis
    using a b c d categorize_meal_priority[of "''Beef and Fish Stew''"]
      categorize_meal_priority[of "''Chicken Fish Mix''"]
      categorize_meal_priority[of "'' Pasta ''"]
    by metis
qed

text \<open>
  The name \<open>Beef Chicken Fish\<close> has both \<open>chicken\<close> and \<open>fish\<close> and is a Beef
  Meal: the Beef rule comes first.
\<close>

theorem chicken_and_fish_counterexample:
  "str_in ''chicken'' (lower ''Beef Chicken Fish'') \<and> str_in ''fish'' (lower ''Beef Chicken Fish'')
   \<and> categorize_meal ''Beef Chicken Fish'' = ''Beef Meal''
   \<and> categorize_meal ''Beef Chicken Fish'' \<noteq> ''Chicken Meal''"
  by code_simp

subsection \<open>Pages worked out\<close>

text \<open>
  Claim C9. On the page \<open>Beef Stew\<close>, \<open>Grade\<close>, \<open>Fish Pie\<close>, \<open>5\<close> the loop adds
  two records, both with the quantity of the only integer line of the page, so that
  Beef Meal and Fish Meal both total 5.
\<close>

theorem shared_quantity_line:
  "records [''Beef Stew'', ''Grade'', ''Fish Pie'', ''5''] 0 = [(''Beef Stew'', 5), (''Fish Pie'', 5)]
   \<and> filter (\<lambda>l. re_int (strip l)) [''Beef Stew'', ''Grade'', ''Fish Pie'', ''5''] = [''5'']
   \<and> extract_lines [''Beef Stew'', ''Grade'', ''Fish Pie'', ''5'']
       = [(''Beef Meal'', 5), (''Fish Meal'', 5)]"
  by code_simp

text \<open>
  The continuation rule as the source has it: a line after the name that is one of
  the seven words of the list of line 62 is not appended, and the name ends on the
  line of the cursor or on the next one.
\<close>

lemma listed_stop_word_not_merged:
  "strip (lines ! (i + 1)) \<in> set continuation_stop_words \<Longrightarrow> \<not> merges_next lines i"
  by (simp add: merges_next_def)

lemma name_end_bounds: "i \<le> name_end lines i \<and> name_end lines i \<le> i + 1"
  by (simp add: name_end_def)

text \<open>
  Claim C5, at the page \<open>Pasta\<close>, \<open>Cycle 5\<close>, \<open>7\<close>. The line \<open>Cycle 5\<close> is one of
  the stop words of the noise test, but the list of the continuation test leaves it
  out: the line is appended to the name, and the total is filed under
  \<open>Pasta Cycle 5\<close>.
\<close>

theorem cycle_label_is_merged:
  "''Cycle 5'' \<in> set stop_words
   \<and> name_line ''Pasta''
   \<and> merges_next [''Pasta'', ''Cycle 5'', ''7''] 0
   \<and> records [''Pasta'', ''Cycle 5'', ''7''] 0 = [(''Pasta Cycle 5'', 7)]
   \<and> extract_lines [''Pasta'', ''Cycle 5'', ''7''] = [(''Pasta Cycle 5'', 7)]"
  by code_simp

subsection \<open>Aggregation\<close>

lemma map_of_dd_add:
  "map_of (dd_add m k q) = (map_of m)(k \<mapsto> (case map_of m k of None \<Rightarrow> 0 | Some v \<Rightarrow> v) + q)"
  by (induction m k q rule: dd_add.induct) (auto simp add: fun_eq_iff)

lemma keys_dd_add: "set (map fst (dd_add m k q)) = insert k (set (map fst m))"
  by (induction m k q rule: dd_add.induct) auto

lemma distinct_dd_add: "distinct (map fst m) \<Longrightarrow> distinct (map fst (dd_add m k q))"
proof (induction m k q rule: dd_add.induct)
  case (1 k q)
  then show ?case by simp
next
  case (2 k' v m k q)
  then show ?case
    using keys_dd_add[of m k q] by auto
qed

lemma aggregate_Nil: "aggregate [] mc = mc"
  by (simp add: aggregate_def)

lemma aggregate_Cons:
  "aggregate (r # recs) mc = aggregate recs (dd_add mc (categorize_meal (fst r)) (snd r))"
  by (simp add: aggregate_def add_record_def split: prod.splits)

lemma distinct_aggregate: "distinct (map fst mc) \<Longrightarrow> distinct (map fst (aggregate recs mc))"
  by (induction recs arbitrary: mc) (simp_all add: aggregate_Nil aggregate_Cons distinct_dd_add)

lemma category_sum_none:
  "\<not> list_ex (\<lambda>r. categorize_meal (fst r) = k) recs \<Longrightarrow> category_sum recs k = 0"
proof -
  assume "\<not> list_ex (\<lambda>r. categorize_meal (fst r) = k) recs"
  then have "filter (\<lambda>r. categorize_meal (fst r) = k) recs = []"
    by (simp add: list_ex_iff filter_empty_conv)
  then show ?thesis
    by (simp add: category_sum_def)
qed

lemma category_sum_Cons:
  "category_sum (r # recs) k
   = (if categorize_meal (fst r) = k then snd r else 0) + category_sum recs k"
  by (simp add: category_sum_def)

lemma map_of_aggregate:
  "map_of (aggregate recs mc) k =
     (if list_ex (\<lambda>r. categorize_meal (fst r) = k) recs
      then Some ((case map_of mc k of None \<Rightarrow> 0 | Some v \<Rightarrow> v) + category_sum recs k)
      else map_of mc k)"
proof (induction recs arbitrary: mc)
  case Nil
  then show ?case by (simp add: aggregate_Nil)
next
  case (Cons r recs)
  show ?case
    by (simp add: aggregate_Cons Cons.IH map_of_dd_add category_sum_Cons category_sum_none)
qed

lemma extract_loop_records: "extract_loop lines i mc = aggregate (records lines i) mc"
proof (induction lines i mc rule: extract_loop.induct)
  case (1 lines i mc)
  show ?case
  proof (cases "i < length lines")
    case True
    have "extract_loop lines i mc
          = extract_loop lines (snd (parse_at lines i)) (add_record (fst (parse_at lines i)) mc)"
      using True by (subst extract_loop.simps) simp
    also have "\<dots> = aggregate (records lines (snd (parse_at lines i)))
                      (add_record (fst (parse_at lines i)) mc)"
      using True by (rule "1.IH")
    also have "\<dots> = aggregate (records lines i) mc"
      using True
      by (subst (2) records.simps)
         (simp add: aggregate_def add_record_def split: option.splits)
    finally show ?thesis .
  next
    case False
    then show ?thesis
      by (subst extract_loop.simps, subst records.simps) (simp add: aggregate_Nil)
  qed
qed

lemma scan_quantity_le: "scan_quantity lines j stop \<le> 100"
proof (induction lines j stop rule: scan_quantity.induct)
  case (1 lines j stop)
  then show ?case
    by (subst scan_quantity.simps) auto
qed

lemma parse_at_range: "fst (parse_at lines i) = Some (n, q) \<Longrightarrow> 1 \<le> q \<and> q \<le> 100"
  by (auto simp add: parse_at_def Let_def scan_quantity_le split: if_splits)

lemma records_range: "(n, q) \<in> set (records lines i) \<Longrightarrow> 1 \<le> q \<and> q \<le> 100"
proof (induction lines i rule: records.induct)
  case (1 lines i)
  show ?case
  proof (cases "i < length lines")
    case True
    from "1.prems" True
    have "fst (parse_at lines i) = Some (n, q) \<or> (n, q) \<in> set (records lines (snd (parse_at lines i)))"
      by (subst (asm) records.simps) (auto split: option.splits)
    then show ?thesis
      using parse_at_range "1.IH"[OF True] by blast
  next
    case False
    with "1.prems" show ?thesis
      by (subst (asm) records.simps) simp
  qed
qed

lemma category_sum_nonneg: "\<forall>r \<in> set recs. 1 \<le> snd r \<Longrightarrow> 0 \<le> category_sum recs k"
  by (induction recs) (auto simp add: category_sum_Cons category_sum_def)

lemma category_sum_pos:
  "\<forall>r \<in> set recs. 1 \<le> snd r \<Longrightarrow> list_ex (\<lambda>r. categorize_meal (fst r) = k) recs
   \<Longrightarrow> 1 \<le> category_sum recs k"
proof (induction recs)
  case Nil
  then show ?case by simp
next
  case (Cons r recs)
  have all: "\<forall>r \<in> set recs. 1 \<le> snd r" and r: "1 \<le> snd r"
    using Cons.prems(1) by simp_all
  show ?case
  proof (cases "categorize_meal (fst r) = k")
    case True
    then show ?thesis
      using r category_sum_nonneg[OF all, of k] by (simp add: category_sum_Cons)
  next
    case False
    then have "list_ex (\<lambda>r. categorize_meal (fst r) = k) recs"
      using Cons.prems(2) by simp
    then show ?thesis
      using False Cons.IH[OF all] by (simp add: category_sum_Cons)
  qed
qed

text \<open>
  Claim C3. The mapping that \<open>extract_meals_from_page\<close> returns has every key
  once. A category to which a record of the page contributes maps to the sum of the
  quantities of the records of that category, and a category to which no record
  contributes is absent.
\<close>

theorem page_totals_are_category_sums:
  "distinct (map fst (extract_lines lines))
   \<and> (\<forall>k. map_of (extract_lines lines) k =
          (if list_ex (\<lambda>r. categorize_meal (fst r) = k) (records lines 0)
           then Some (category_sum (records lines 0) k) else None))"
proof -
  have e: "extract_lines lines = aggregate (records lines 0) []"
    by (simp add: extract_lines_def extract_loop_records)
  have "distinct (map fst (extract_lines lines))"
    unfolding e by (rule distinct_aggregate) simp
  moreover have "map_of (extract_lines lines) k =
          (if list_ex (\<lambda>r. categorize_meal (fst r) = k) (records lines 0)
           then Some (category_sum (records lines 0) k) else None)" for k
    unfolding e by (simp add: map_of_aggregate)
  ultimately show ?thesis by blast
qed

theorem page_totals_witness:
  "distinct (map fst (extract_lines [''Beef Stew'', ''3'', ''Fish Pie'', ''5'', ''Beefy Pie'', ''4'']))
   \<and> list_ex (\<lambda>r. categorize_meal (fst r) = ''Beef Meal'')
        (records [''Beef Stew'', ''3'', ''Fish Pie'', ''5'', ''Beefy Pie'', ''4''] 0)
   \<and> map_of (extract_lines [''Beef Stew'', ''3'', ''Fish Pie'', ''5'', ''Beefy Pie'', ''4'']) ''Beef Meal''
       = Some 7
   \<and> \<not> list_ex (\<lambda>r. categorize_meal (fst r) = ''Lentil Meal'')
        (records [''Beef Stew'', ''3'', ''Fish Pie'', ''5'', ''Beefy Pie'', ''4''] 0)
   \<and> map_of (extract_lines [''Beef Stew'', ''3'', ''Fish Pie'', ''5'', ''Beefy Pie'', ''4'']) ''Lentil Meal''
       = None"
proof -
  have r: "records [''Beef Stew'', ''3'', ''Fish Pie'', ''5'', ''Beefy Pie'', ''4''] 0
           = [(''Beef Stew'', 3), (''Fish Pie'', 5), (''Beefy Pie'', 4)]"
    by code_simp
  have a: "list_ex (\<lambda>r. categorize_meal (fst r) = ''Beef Meal'')
             [(''Beef Stew'', 3), (''Fish Pie'', 5), (''Beefy Pie'', 4)]"
    by code_simp
  have b: "\<not> list_ex (\<lambda>r. categorize_meal (fst r) = ''Lentil Meal'')
             [(''Beef Stew'', 3), (''Fish Pie'', 5), (''Beefy Pie'', 4)]"
    by code_simp
  have c: "category_sum [(''Beef Stew'', 3), (''Fish Pie'', 5), (''Beefy Pie'', 4)] ''Beef Meal'' = 7"
    by code_simp
  show ?thesis
    using page_totals_are_category_sums[of "[''Beef Stew'', ''3'', ''Fish Pie'', ''5'', ''Beefy Pie'', ''4'']"]
    unfolding r using a b c by simp
qed

text \<open>
  Claim C10. Every value of the mapping is at least 1, and a key is present only when
  a record of its category, with a quantity from 1 to 100, was added.
\<close>

theorem page_totals_at_least_one:
  "\<forall>(k, v) \<in> set (extract_lines lines).
     1 \<le> v \<and> list_ex (\<lambda>r. categorize_meal (fst r) = k \<and> 1 \<le> snd r \<and> snd r \<le> 100) (records lines 0)"
proof -
  have e: "extract_lines lines = aggregate (records lines 0) []"
    by (simp add: extract_lines_def extract_loop_records)
  have d: "distinct (map fst (extract_lines lines))"
    unfolding e by (rule distinct_aggregate) simp
  have "1 \<le> v \<and> list_ex (\<lambda>r. categorize_meal (fst r) = k \<and> 1 \<le> snd r \<and> snd r \<le> 100) (records lines 0)"
    if kv: "(k, v) \<in> set (extract_lines lines)" for k v
  proof -
    from kv d have "map_of (extract_lines lines) k = Some v"
      by simp
    then have m: "map_of (aggregate (records lines 0) []) k = Some v"
      by (simp add: e)
    have ex: "list_ex (\<lambda>r. categorize_meal (fst r) = k) (records lines 0)"
      using m by (simp add: map_of_aggregate split: if_splits)
    then have v: "v = category_sum (records lines 0) k"
      using m by (simp add: map_of_aggregate)
    have "1 \<le> category_sum (records lines 0) k"
      using records_range[of _ _ lines 0] ex by (intro category_sum_pos) auto
    moreover have "list_ex (\<lambda>r. categorize_meal (fst r) = k \<and> 1 \<le> snd r \<and> snd r \<le> 100) (records lines 0)"
      using ex records_range[of _ _ lines 0] by (fastforce simp add: list_ex_iff)
    ultimately show ?thesis
      using v by simp
  qed
  then show ?thesis by blast
qed

theorem page_totals_at_least_one_witness:
  "(''Beef Meal'', 7) \<in> set (extract_lines [''Beef Stew'', ''3'', ''Fish Pie'', ''5'', ''Beefy Pie'', ''4''])
   \<and> (1::int) \<le> 7
   \<and> list_ex (\<lambda>r. categorize_meal (fst r) = ''Beef Meal'' \<and> 1 \<le> snd r \<and> snd r \<le> 100)
        (records [''Beef Stew'', ''3'', ''Fish Pie'', ''5'', ''Beefy Pie'', ''4''] 0)"
proof -
  have m: "(''Beef Meal'', 7) \<in> set (extract_lines [''Beef Stew'', ''3'', ''Fish Pie'', ''5'', ''Beefy Pie'', ''4''])"
    by code_simp
  show ?thesis
    using m page_totals_at_least_one[of "[''Beef Stew'', ''3'', ''Fish Pie'', ''5'', ''Beefy Pie'', ''4'']"]
    by blast
qed

subsection \<open>Trimmed lines and the quantity scan\<close>

lemma isspace_newline: "isspace (CHR 0x0A)"
  by code_simp

lemma strip_last: "strip l \<noteq> [] \<Longrightarrow> \<not> isspace (last (strip l))"
proof -
  assume ne: "strip l \<noteq> []"
  let ?d = "dropWhile isspace (rev (dropWhile isspace l))"
  from ne have d: "?d \<noteq> []"
    by (simp add: strip_def)
  have "last (strip l) = hd ?d"
    using d by (simp add: strip_def last_rev)
  moreover have "\<not> isspace (hd ?d)"
    using d by (rule hd_dropWhile)
  ultimately show ?thesis by simp
qed

lemma strip_hd: "strip l \<noteq> [] \<Longrightarrow> \<not> isspace (hd (strip l))"
proof -
  assume ne: "strip l \<noteq> []"
  let ?y = "dropWhile isspace l"
  let ?d = "dropWhile isspace (rev ?y)"
  from ne have d: "?d \<noteq> []"
    by (simp add: strip_def)
  have y: "?y \<noteq> []"
  proof
    assume "?y = []"
    with d show False by simp
  qed
  have "rev ?y = takeWhile isspace (rev ?y) @ ?d"
    by simp
  then have "last (rev ?y) = last ?d"
    using d by (metis last_appendR)
  then have "hd (strip l) = hd ?y"
    using d y by (simp add: strip_def hd_rev last_rev)
  moreover have "\<not> isspace (hd ?y)"
    using y by (rule hd_dropWhile)
  ultimately show ?thesis by simp
qed

lemma re_int_bare_int:
  assumes "s = [] \<or> \<not> isspace (last s)"
  shows "re_int s = bare_int s"
proof (cases "dropWhile isdigit s = []")
  case True
  then have all: "\<forall>c \<in> set s. isdigit c"
    by simp
  then have tw: "takeWhile isdigit s = s"
    by simp
  show ?thesis
    unfolding re_int_def bare_int_def at_end_def tw True
    using all by (simp add: list_all_iff)
next
  case False
  then have nb: "\<not> bare_int s"
    by (auto simp add: bare_int_def list_all_iff)
  have "dropWhile isdigit s \<noteq> [CHR 0x0A]"
  proof
    assume e: "dropWhile isdigit s = [CHR 0x0A]"
    have "takeWhile isdigit s @ dropWhile isdigit s = s"
      by simp
    then have eq: "takeWhile isdigit s @ [CHR 0x0A] = s"
      using e by simp
    have "s \<noteq> []"
      using e by auto
    moreover have "last s = CHR 0x0A"
      by (subst eq[symmetric]) simp
    ultimately have "s \<noteq> []" and "last s = CHR 0x0A"
      by blast+
    with assms isspace_newline show False
      by simp
  qed
  with False nb show ?thesis
    by (simp add: re_int_def at_end_def)
qed

lemma re_int_strip: "re_int (strip l) = bare_int (strip l)"
  using strip_last[of l] by (intro re_int_bare_int) blast

lemma scan_quantity_find:
  "stop \<le> length lines \<Longrightarrow>
   scan_quantity lines j stop =
     (case find in_range (take (stop - j) (drop j lines)) of
        None \<Rightarrow> 0
      | Some l \<Rightarrow> py_int (strip l))"
proof (induction lines j stop rule: scan_quantity.induct)
  case (1 lines j stop)
  show ?case
  proof (cases "j < stop")
    case True
    with "1.prems" have jl: "j < length lines"
      by simp
    have w: "take (stop - j) (drop j lines) = lines ! j # take (stop - (j + 1)) (drop (j + 1) lines)"
    proof -
      have "drop j lines = lines ! j # drop (j + 1) lines"
        using jl by (simp add: Cons_nth_drop_Suc)
      moreover have "stop - j = Suc (stop - (j + 1))"
        using True by simp
      ultimately show ?thesis
        by simp
    qed
    show ?thesis
    proof (cases "in_range (lines ! j)")
      case True
      then show ?thesis
        using \<open>j < stop\<close> w
        by (subst scan_quantity.simps) (simp add: in_range_def re_int_strip)
    next
      case False
      then have "scan_quantity lines j stop = scan_quantity lines (j + 1) stop"
        using \<open>j < stop\<close>
        by (subst scan_quantity.simps) (auto simp add: in_range_def re_int_strip)
      also have "\<dots> = (case find in_range (take (stop - (j + 1)) (drop (j + 1) lines)) of
                         None \<Rightarrow> 0 | Some l \<Rightarrow> py_int (strip l))"
        using \<open>j < stop\<close> False "1.prems"
        by (intro "1.IH") (auto simp add: in_range_def re_int_strip)
      finally show ?thesis
        using w False by simp
    qed
  next
    case False
    then show ?thesis
      by (subst scan_quantity.simps) simp
  qed
qed

lemma scan_quantity_window:
  "scan_quantity lines (k + 1) (min (k + 5) (length lines)) =
     (case find in_range (take 4 (drop (k + 1) lines)) of
        None \<Rightarrow> 0
      | Some l \<Rightarrow> py_int (strip l))"
proof -
  have "take (min (k + 5) (length lines) - (k + 1)) (drop (k + 1) lines) = take 4 (drop (k + 1) lines)"
    by (cases "k + 5 \<le> length lines") (simp_all add: min_def)
  then show ?thesis
    by (simp add: scan_quantity_find)
qed

lemma find_in_range_pos: "find in_range ls = Some l \<Longrightarrow> 0 < py_int (strip l)"
  by (auto simp add: find_Some_iff in_range_def)

lemma parse_at_name_line:
  assumes "name_line (lines ! i)"
  shows "parse_at lines i =
           (map_option (\<lambda>l. (meal_name_at lines i, py_int (strip l))) (find in_range (window lines i)),
            name_end lines i + 1)"
proof -
  have q: "scan_quantity lines (name_end lines i + 1) (min (name_end lines i + 5) (length lines)) =
     (case find in_range (window lines i) of None \<Rightarrow> 0 | Some l \<Rightarrow> py_int (strip l))"
    unfolding window_def by (rule scan_quantity_window)
  have "parse_at lines i =
     (if 0 < scan_quantity lines (name_end lines i + 1) (min (name_end lines i + 5) (length lines))
      then Some (meal_name_at lines i,
             scan_quantity lines (name_end lines i + 1) (min (name_end lines i + 5) (length lines)))
      else None, name_end lines i + 1)"
    using assms by (simp add: parse_at_def name_line_def Let_def name_end_def meal_name_at_def)
  then show ?thesis
    unfolding q using find_in_range_pos[of "window lines i"]
    by (auto split: option.splits)
qed




subsection \<open>Lines with a running total\<close>

lemma isspace_lower_char: "isspace (lower_char c) = isspace c"
  by (auto simp add: isspace_def lower_char_def code_point_def Let_def of_char_of)

lemma strip_lower: "strip (lower l) = lower (strip l)"
proof -
  have c: "isspace \<circ> lower_char = isspace"
    by (rule ext) (simp add: isspace_lower_char)
  have d: "dropWhile isspace (map lower_char xs) = map lower_char (dropWhile isspace xs)" for xs
    by (simp add: dropWhile_map c)
  show ?thesis
    by (simp add: strip_def lower_def d rev_map)
qed

lemma dropWhile_keeps_block:
  "k \<noteq> [] \<Longrightarrow> \<not> P (hd k) \<Longrightarrow> \<exists>a'. dropWhile P (a @ k @ b) = a' @ k @ b"
proof (induction a)
  case Nil
  then have "dropWhile P (k @ b) = k @ b"
    by (cases k) simp_all
  then show ?case
    by (intro exI[of _ "[]"]) simp
next
  case (Cons x a)
  show ?case
  proof (cases "P x")
    case True
    then show ?thesis
      using Cons by simp
  next
    case False
    then show ?thesis
      by (intro exI[of _ "x # a"]) simp
  qed
qed

lemma sublist_strip:
  assumes "sublist k l" and "k \<noteq> []" and "\<not> isspace (hd k)" and "\<not> isspace (last k)"
  shows "sublist k (strip l)"
proof -
  from assms(1) obtain a b where l: "l = a @ k @ b"
    by (auto simp add: sublist_def)
  obtain a' where 1: "dropWhile isspace l = a' @ k @ b"
    using dropWhile_keeps_block[of k isspace a b] assms(2,3) l by blast
  have "rev k \<noteq> []" and "\<not> isspace (hd (rev k))"
    using assms(2,4) by (simp_all add: hd_rev)
  then obtain b' where 2: "dropWhile isspace (rev b @ rev k @ rev a') = b' @ rev k @ rev a'"
    using dropWhile_keeps_block[of "rev k" isspace "rev b" "rev a'"] by blast
  have "strip l = a' @ k @ rev b'"
    by (simp add: strip_def 1 2)
  then show ?thesis
    by (auto simp add: sublist_def)
qed

lemma total_in_stripped:
  assumes "str_in ''total'' (lower l)"
  shows "str_in ''total'' (lower (strip l))"
proof -
  have "\<not> isspace (hd ''total'')" and "\<not> isspace (last ''total'')"
    by code_simp+
  then have "sublist ''total'' (strip (lower l))"
    using assms by (intro sublist_strip) (simp_all add: str_in_sublist)
  then show ?thesis
    by (simp add: str_in_sublist strip_lower)
qed

text \<open>
  Claim C7. A line with \<open>total\<close> in it, in any case of the letters, is noise and
  starts no record, also when it has a food keyword: the pass adds nothing and the
  loop goes on with the next line. The page whose only line is \<open>Pasta Total\<close>,
  which has the keyword \<open>pasta\<close>, gives the empty mapping, and \<open>process_pdf\<close>
  leaves it as it is, without annotation.
\<close>

theorem total_line_is_noise:
  assumes "i < length lines" and "str_in ''total'' (lower (lines ! i))"
  shows "is_noise (strip (lines ! i))
       \<and> \<not> name_line (lines ! i)
       \<and> parse_at lines i = (None, i + 1)
       \<and> extract_loop lines i meal_counts = extract_loop lines (i + 1) meal_counts
       \<and> has_keyword (strip ''Pasta Total'')
       \<and> extract_meals_from_page
            \<lparr>get_text = ''Pasta Total'', rect_width = w, rect_height = h, annots = []\<rparr> = []
       \<and> process_pdf ops
            [\<lparr>get_text = ''Pasta Total'', rect_width = w, rect_height = h, annots = []\<rparr>]
           = [\<lparr>get_text = ''Pasta Total'', rect_width = w, rect_height = h, annots = []\<rparr>]"
proof -
  have n: "is_noise (strip (lines ! i))"
    using total_in_stripped[OF assms(2)] by (simp add: is_noise_def)
  then have p: "parse_at lines i = (None, i + 1)"
    by (simp add: parse_at_def)
  have l: "extract_loop lines i meal_counts = extract_loop lines (i + 1) meal_counts"
    using assms(1) by (subst extract_loop.simps) (simp add: p add_record_def)
  have k: "has_keyword (strip ''Pasta Total'')"
    by code_simp
  have "extract_lines (split_nl ''Pasta Total'') = []"
    by code_simp
  then have e: "extract_meals_from_page
            \<lparr>get_text = ''Pasta Total'', rect_width = w, rect_height = h, annots = []\<rparr> = []"
    by (simp add: extract_meals_from_page_def)
  have d: "process_pdf ops
            [\<lparr>get_text = ''Pasta Total'', rect_width = w, rect_height = h, annots = []\<rparr>]
           = [\<lparr>get_text = ''Pasta Total'', rect_width = w, rect_height = h, annots = []\<rparr>]"
    unfolding process_pdf_def
    by (subst process_pages.simps, subst process_pages.simps) (simp add: process_page_def e)
  from n p l k e d show ?thesis
    by (simp add: name_line_def)
qed

theorem total_line_is_noise_witness:
  "(0::nat) < length [''Beef Soup TOTAL'', ''5'']
   \<and> str_in ''total'' (lower ([''Beef Soup TOTAL'', ''5''] ! 0))
   \<and> has_keyword (strip ([''Beef Soup TOTAL'', ''5''] ! 0))
   \<and> is_noise (strip ([''Beef Soup TOTAL'', ''5''] ! 0))
   \<and> parse_at [''Beef Soup TOTAL'', ''5''] 0 = (None, 0 + 1)"
proof -
  have a: "(0::nat) < length [''Beef Soup TOTAL'', ''5'']"
    by simp
  have b: "str_in ''total'' (lower ([''Beef Soup TOTAL'', ''5''] ! 0))"
    by code_simp
  have c: "has_keyword (strip ([''Beef Soup TOTAL'', ''5''] ! 0))"
    by code_simp
  show ?thesis
    using total_line_is_noise[OF a b, where meal_counts = "[]" and w = "0::rat" and h = "0::rat"
        and ops = rat_ops] a b c
    by simp
qed

subsection \<open>The page loop\<close>

lemma process_pages_length: "length (process_pages ops doc page_num) = length doc"
proof (induction ops doc page_num rule: process_pages.induct)
  case (1 ops doc page_num)
  then show ?case
    by (subst process_pages.simps) simp
qed

lemma process_pages_nth:
  "k < length doc \<Longrightarrow>
   process_pages ops doc page_num ! k
     = (if page_num \<le> k then process_page ops (doc ! k) else doc ! k)"
proof (induction ops doc page_num rule: process_pages.induct)
  case (1 ops doc page_num)
  show ?case
  proof (cases "page_num < length doc")
    case True
    have "process_pages ops doc page_num ! k
          = process_pages ops (doc[page_num := process_page ops (doc ! page_num)]) (page_num + 1) ! k"
      using True by (subst process_pages.simps) simp
    also have "\<dots> = (if page_num + 1 \<le> k
                       then process_page ops (doc[page_num := process_page ops (doc ! page_num)] ! k)
                       else doc[page_num := process_page ops (doc ! page_num)] ! k)"
      using True "1.prems" by (intro "1.IH") simp_all
    also have "\<dots> = (if page_num \<le> k then process_page ops (doc ! k) else doc ! k)"
      using True "1.prems" by (cases "k = page_num") (auto simp add: nth_list_update)
    finally show ?thesis .
  next
    case False
    then show ?thesis
      using "1.prems" by (subst process_pages.simps) simp
  qed
qed

lemma add_totals_annots:
  "length (annots (add_totals_to_page ops page meal_totals))
   = length (annots page) + length meal_totals"
  by (simp add: add_totals_to_page_def Let_def)

text \<open>
  Claim C8. \<open>process_pdf\<close> keeps the number of pages. A page whose mapping is empty
  is left as it is, so it gets no annotation; every other page is the result of
  \<open>add_totals_to_page\<close> on it, with one more annotation for each category of
  its mapping.
\<close>

theorem empty_page_is_left_alone:
  assumes "k < length doc"
  shows "length (process_pdf ops doc) = length doc
       \<and> (extract_meals_from_page (doc ! k) = [] \<longrightarrow> process_pdf ops doc ! k = doc ! k)
       \<and> (extract_meals_from_page (doc ! k) \<noteq> [] \<longrightarrow>
            process_pdf ops doc ! k
              = add_totals_to_page ops (doc ! k) (extract_meals_from_page (doc ! k))
            \<and> length (annots (process_pdf ops doc ! k))
              = length (annots (doc ! k)) + length (extract_meals_from_page (doc ! k)))"
proof -
  have "process_pdf ops doc ! k = process_page ops (doc ! k)"
    using assms by (simp add: process_pdf_def process_pages_nth)
  then show ?thesis
    by (simp add: process_pdf_def process_pages_length process_page_def add_totals_annots Let_def)
qed

theorem empty_page_is_left_alone_witness:
  "(0::nat) < length
     [\<lparr>get_text = ''Grade'', rect_width = 600::rat, rect_height = 800, annots = []\<rparr>,
      \<lparr>get_text = ''Beef'' @ [CHR 0x0A] @ ''12'', rect_width = 600, rect_height = 800, annots = []\<rparr>]
   \<and> extract_meals_from_page
     ([\<lparr>get_text = ''Grade'', rect_width = 600::rat, rect_height = 800, annots = []\<rparr>,
      \<lparr>get_text = ''Beef'' @ [CHR 0x0A] @ ''12'', rect_width = 600, rect_height = 800, annots = []\<rparr>] ! 0) = []
   \<and> process_pdf rat_ops
     [\<lparr>get_text = ''Grade'', rect_width = 600::rat, rect_height = 800, annots = []\<rparr>,
      \<lparr>get_text = ''Beef'' @ [CHR 0x0A] @ ''12'', rect_width = 600, rect_height = 800, annots = []\<rparr>] ! 0
     = \<lparr>get_text = ''Grade'', rect_width = 600, rect_height = 800, annots = []\<rparr>
   \<and> (1::nat) < length
     [\<lparr>get_text = ''Grade'', rect_width = 600::rat, rect_height = 800, annots = []\<rparr>,
      \<lparr>get_text = ''Beef'' @ [CHR 0x0A] @ ''12'', rect_width = 600, rect_height = 800, annots = []\<rparr>]
   \<and> extract_meals_from_page
     ([\<lparr>get_text = ''Grade'', rect_width = 600::rat, rect_height = 800, annots = []\<rparr>,
      \<lparr>get_text = ''Beef'' @ [CHR 0x0A] @ ''12'', rect_width = 600, rect_height = 800, annots = []\<rparr>] ! 1) \<noteq> []
   \<and> length (annots (process_pdf rat_ops
     [\<lparr>get_text = ''Grade'', rect_width = 600::rat, rect_height = 800, annots = []\<rparr>,
      \<lparr>get_text = ''Beef'' @ [CHR 0x0A] @ ''12'', rect_width = 600, rect_height = 800, annots = []\<rparr>] ! 1)) = 1"
proof -
  have a: "(0::nat) < length
     [\<lparr>get_text = ''Grade'', rect_width = 600::rat, rect_height = 800, annots = []\<rparr>,
      \<lparr>get_text = ''Beef'' @ [CHR 0x0A] @ ''12'', rect_width = 600, rect_height = 800, annots = []\<rparr>]"
    by simp
  have a': "(1::nat) < length
     [\<lparr>get_text = ''Grade'', rect_width = 600::rat, rect_height = 800, annots = []\<rparr>,
      \<lparr>get_text = ''Beef'' @ [CHR 0x0A] @ ''12'', rect_width = 600, rect_height = 800, annots = []\<rparr>]"
    by simp
  have "extract_lines (split_nl ''Grade'') = []"
    by code_simp
  then have b: "extract_meals_from_page
     ([\<lparr>get_text = ''Grade'', rect_width = 600::rat, rect_height = 800, annots = []\<rparr>,
      \<lparr>get_text = ''Beef'' @ [CHR 0x0A] @ ''12'', rect_width = 600, rect_height = 800, annots = []\<rparr>] ! 0) = []"
    by (simp add: extract_meals_from_page_def)
  have "extract_lines (split_nl (''Beef'' @ [CHR 0x0A] @ ''12'')) = [(''Beef Meal'', 12)]"
    by code_simp
  then have c: "extract_meals_from_page
     ([\<lparr>get_text = ''Grade'', rect_width = 600::rat, rect_height = 800, annots = []\<rparr>,
      \<lparr>get_text = ''Beef'' @ [CHR 0x0A] @ ''12'', rect_width = 600, rect_height = 800, annots = []\<rparr>] ! 1) = [(''Beef Meal'', 12)]"
    by (simp add: extract_meals_from_page_def)
  show ?thesis
    using empty_page_is_left_alone[OF a, of rat_ops] empty_page_is_left_alone[OF a', of rat_ops] b c
    by (simp add: add_totals_annots)
qed

subsection \<open>Pages made of segments\<close>

lemma scan_quantity_append:
  "scan_quantity (pre @ suf) (length pre + j) (length pre + stop) = scan_quantity suf j stop"
proof (induction suf j stop rule: scan_quantity.induct)
  case (1 suf j stop)
  show ?case
  proof (cases "j < stop")
    case True
    show ?thesis
    proof (cases "re_int (strip (suf ! j)) \<and> 1 \<le> py_int (strip (suf ! j))
                  \<and> py_int (strip (suf ! j)) \<le> 100")
      case True
      with \<open>j < stop\<close> show ?thesis
        by (subst scan_quantity.simps, subst (2) scan_quantity.simps) (simp add: nth_append)
    next
      case False
      have "scan_quantity (pre @ suf) (length pre + j) (length pre + stop)
            = scan_quantity (pre @ suf) (length pre + (j + 1)) (length pre + stop)"
        using False \<open>j < stop\<close>
        by (subst scan_quantity.simps) (auto simp add: nth_append)
      also have "\<dots> = scan_quantity suf (j + 1) stop"
        using False \<open>j < stop\<close> by (intro "1.IH") auto
      also have "\<dots> = scan_quantity suf j stop"
        using False \<open>j < stop\<close>
        by (subst (2) scan_quantity.simps) auto
      finally show ?thesis .
    qed
  next
    case False
    then show ?thesis
      by (subst scan_quantity.simps, subst (2) scan_quantity.simps) simp
  qed
qed

lemma merges_next_append: "merges_next (pre @ suf) (length pre + j) = merges_next suf j"
  by (simp add: merges_next_def nth_append)

lemma parse_at_append:
  "parse_at (pre @ suf) (length pre + j)
   = (fst (parse_at suf j), length pre + snd (parse_at suf j))"
proof -
  have s: "scan_quantity (pre @ suf) (length pre + k + 1) (min (length pre + k + 5) (length (pre @ suf)))
           = scan_quantity suf (k + 1) (min (k + 5) (length suf))" for k
  proof -
    have "min (length pre + k + 5) (length (pre @ suf)) = length pre + min (k + 5) (length suf)"
      by simp
    moreover have "length pre + k + 1 = length pre + (k + 1)"
      by simp
    ultimately show ?thesis
      by (simp only: scan_quantity_append)
  qed
  have n1: "(pre @ suf) ! (length pre + j) = suf ! j"
    by (simp add: nth_append)
  have n2: "(pre @ suf) ! (length pre + j + 1) = suf ! (j + 1)"
    by (simp add: nth_append)
  show ?thesis
    unfolding parse_at_def Let_def merges_next_append n1 n2
    using s[of j] s[of "j + 1"]
    by (simp add: add.assoc)
qed

lemma records_append: "records (pre @ suf) (length pre + j) = records suf j"
proof (induction suf j rule: records.induct)
  case (1 suf j)
  show ?case
  proof (cases "j < length suf")
    case True
    have "records (pre @ suf) (length pre + j)
          = (case fst (parse_at suf j) of None \<Rightarrow> [] | Some r \<Rightarrow> [r])
            @ records (pre @ suf) (length pre + snd (parse_at suf j))"
      using True by (subst records.simps) (simp add: parse_at_append)
    also have "records (pre @ suf) (length pre + snd (parse_at suf j)) = records suf (snd (parse_at suf j))"
      using True by (rule "1.IH")
    finally show ?thesis
      using True by (subst (2) records.simps) simp
  next
    case False
    then show ?thesis
      by (subst records.simps, subst (2) records.simps) simp
  qed
qed

lemma records_skip: "records (b @ rest) (length b) = records rest 0"
  using records_append[of b rest 0] by simp

lemma lower_char_digit: "isdigit c \<Longrightarrow> lower_char c = c"
  by (auto simp add: isdigit_def lower_char_def Let_def)

lemma keywords_start_with_no_digit: "\<forall>k \<in> set food_keywords. k \<noteq> [] \<and> \<not> isdigit (hd k)"
  by code_simp

lemma digits_have_no_keyword:
  assumes "list_all isdigit s"
  shows "\<not> has_keyword s"
proof
  assume "has_keyword s"
  then obtain k where k: "k \<in> set food_keywords" and in_s: "str_in k (lower s)"
    by (auto simp add: has_keyword_def list_ex_iff)
  have "lower s = s"
    using assms by (simp add: lower_def list_all_iff lower_char_digit map_idI)
  with in_s have "sublist k s"
    by (simp add: str_in_sublist)
  then have sub: "set k \<subseteq> set s"
    by (rule set_mono_sublist)
  have ne: "k \<noteq> []" and nd: "\<not> isdigit (hd k)"
    using k keywords_start_with_no_digit by blast+
  from ne have "hd k \<in> set k"
    by (rule hd_in_set)
  with sub have "hd k \<in> set s"
    by blast
  with assms have "isdigit (hd k)"
    by (simp add: list_all_iff)
  with nd show False
    by contradiction
qed

lemma in_range_no_name_line: "in_range q \<Longrightarrow> \<not> name_line q"
  by (simp add: in_range_def bare_int_def name_line_def digits_have_no_keyword)

lemma parse_at_plain: "\<not> name_line (lines ! i) \<Longrightarrow> parse_at lines i = (None, i + 1)"
  by (auto simp add: parse_at_def name_line_def Let_def)

lemma records_plain:
  assumes "\<not> name_line l"
  shows "records (l # rest) 0 = records rest 0"
proof -
  have "parse_at (l # rest) 0 = (None, 1)"
    using assms parse_at_plain[of "l # rest" 0] by simp
  then have "records (l # rest) 0 = records (l # rest) 1"
    by (subst records.simps) simp
  moreover have "records (l # rest) 1 = records rest 0"
    using records_skip[of "[l]" rest] by simp
  ultimately show ?thesis
    by simp
qed

lemma in_range_not_merged: "in_range q \<Longrightarrow> \<not> merges_next (n # q # rest) 0"
  by (simp add: merges_next_def in_range_def re_int_strip)

lemma continuation_line_merged: "continuation_line c \<Longrightarrow> merges_next (n # c # rest) 0"
  by (auto simp add: merges_next_def continuation_line_def re_int_strip stop_words_def
      continuation_stop_words_def)

lemma records_block2:
  assumes "name_line n" and "in_range q"
  shows "records (n # q # rest) 0 = (strip n, py_int (strip q)) # records rest 0"
proof -
  have m: "\<not> merges_next (n # q # rest) 0"
    using assms(2) by (rule in_range_not_merged)
  have "parse_at (n # q # rest) 0 = (Some (strip n, py_int (strip q)), 1)"
    using assms m parse_at_name_line[of "n # q # rest" 0]
    by (simp add: window_def name_end_def meal_name_at_def)
  then have 1: "records (n # q # rest) 0 = (strip n, py_int (strip q)) # records (n # q # rest) 1"
    by (subst records.simps) simp
  have "parse_at (n # q # rest) 1 = (None, 2)"
    using in_range_no_name_line[OF assms(2)] parse_at_plain[of "n # q # rest" 1] by simp
  then have "records (n # q # rest) 1 = records (n # q # rest) 2"
    by (subst records.simps) simp
  moreover have "records (n # q # rest) 2 = records rest 0"
    using records_skip[of "[n, q]" rest] by (simp add: numeral_2_eq_2)
  ultimately show ?thesis
    using 1 by simp
qed

lemma records_block3:
  assumes "name_line n" and "continuation_line c" and "in_range q"
  shows "records (n # c # q # rest) 0
         = (strip n @ '' '' @ strip c, py_int (strip q)) # records rest 0"
proof -
  have m: "merges_next (n # c # q # rest) 0"
    using assms(2) by (rule continuation_line_merged)
  have "parse_at (n # c # q # rest) 0 = (Some (strip n @ '' '' @ strip c, py_int (strip q)), 2)"
    using assms m parse_at_name_line[of "n # c # q # rest" 0]
    by (simp add: window_def name_end_def meal_name_at_def)
  then have 1: "records (n # c # q # rest) 0
                = (strip n @ '' '' @ strip c, py_int (strip q)) # records (n # c # q # rest) 2"
    by (subst records.simps) simp
  have "parse_at (n # c # q # rest) 2 = (None, 3)"
    using in_range_no_name_line[OF assms(3)] parse_at_plain[of "n # c # q # rest" 2] by simp
  then have "records (n # c # q # rest) 2 = records (n # c # q # rest) 3"
    by (subst records.simps) simp
  moreover have "records (n # c # q # rest) 3 = records rest 0"
    using records_skip[of "[n, c, q]" rest] by (simp add: numeral_3_eq_3)
  ultimately show ?thesis
    using 1 by simp
qed

lemma records_segment:
  assumes "segment b"
  shows "records (b @ rest) 0 = segment_records b @ records rest 0"
proof (cases "meal_block b")
  case True
  then show ?thesis
  proof (induction b rule: meal_block.induct)
    case (1 n q)
    then show ?case
      by (simp add: segment_records_def records_block2)
  next
    case (2 n c q)
    then show ?case
      by (simp add: segment_records_def records_block3)
  qed simp_all
next
  case False
  with assms obtain l where "b = [l]" and "\<not> name_line l"
    by (cases b) (auto simp add: segment_def)
  with False show ?thesis
    by (simp add: segment_records_def records_plain)
qed

lemma records_segments:
  "\<forall>b \<in> set segs. segment b \<Longrightarrow> records (concat segs) 0 = concat (map segment_records segs)"
proof (induction segs)
  case Nil
  show ?case
    by (subst records.simps) simp
next
  case (Cons b segs)
  then show ?case
    by (simp add: records_segment)
qed

lemma category_sum_mset:
  "category_sum recs k
   = sum_mset (image_mset snd (filter_mset (\<lambda>r. categorize_meal (fst r) = k) (mset recs)))"
  by (simp add: category_sum_def sum_mset_sum_list[symmetric] del: sum_mset_sum_list)

lemma map_of_aggregate_mset:
  assumes "mset recs = mset recs'"
  shows "map_of (aggregate recs []) = map_of (aggregate recs' [])"
proof (rule ext)
  fix k
  have "set recs = set recs'"
    using assms by (rule mset_eq_setD)
  then have "list_ex (\<lambda>r. categorize_meal (fst r) = k) recs
             = list_ex (\<lambda>r. categorize_meal (fst r) = k) recs'"
    by (simp add: list_ex_iff)
  moreover have "category_sum recs k = category_sum recs' k"
    by (simp add: category_sum_mset assms)
  ultimately show "map_of (aggregate recs []) k = map_of (aggregate recs' []) k"
    by (simp add: map_of_aggregate)
qed

lemma extract_lines_segments:
  assumes "\<forall>b \<in> set segs. segment b"
  shows "extract_lines (concat segs) = aggregate (concat (map segment_records segs)) []"
  using assms by (simp add: extract_lines_def extract_loop_records records_segments)

lemma sort_extract_lines:
  assumes "map_of (extract_lines xs) = map_of (extract_lines ys)"
  shows "sort (extract_lines xs) = sort (extract_lines ys)"
proof -
  have dx: "distinct (map fst (extract_lines xs))" and dy: "distinct (map fst (extract_lines ys))"
    by (simp_all add: extract_lines_def extract_loop_records distinct_aggregate)
  then have "set (extract_lines xs) = set (extract_lines ys)"
    using assms by (simp add: map_of_inject_set)
  moreover have "distinct (extract_lines xs)" and "distinct (extract_lines ys)"
    using dx dy by (simp_all add: distinct_map)
  ultimately have "mset (extract_lines xs) = mset (extract_lines ys)"
    by (simp add: set_eq_iff_mset_eq_distinct)
  then have "mset (sort (extract_lines ys)) = mset (extract_lines xs)"
    by simp
  then show ?thesis
    by (intro properties_for_sort) simp_all
qed

text \<open>
  Claim C6, as amended. Let a page be made of segments, each of them a self-contained
  meal block (a name line, at most one continuation line, then at once the quantity
  line of the block, in range) or a single line on which no record starts. Then two
  meal blocks of the page may change places: the mapping that
  \<open>extract_meals_from_page\<close> returns keeps the same value at every key, and the
  sorted list of its items, from which the layout is made, is the same.
\<close>

theorem swapping_meal_blocks:
  assumes "\<forall>b \<in> set Ps. segment b" and "\<forall>b \<in> set Ms. segment b" and "\<forall>b \<in> set Ss. segment b"
    and "meal_block A" and "meal_block B"
  shows "map_of (extract_lines (concat Ps @ A @ concat Ms @ B @ concat Ss))
         = map_of (extract_lines (concat Ps @ B @ concat Ms @ A @ concat Ss))
       \<and> sort (extract_lines (concat Ps @ A @ concat Ms @ B @ concat Ss))
         = sort (extract_lines (concat Ps @ B @ concat Ms @ A @ concat Ss))"
proof -
  let ?s1 = "Ps @ [A] @ Ms @ [B] @ Ss" and ?s2 = "Ps @ [B] @ Ms @ [A] @ Ss"
  have seg: "\<forall>b \<in> set ?s1. segment b" "\<forall>b \<in> set ?s2. segment b"
    using assms by (auto simp add: segment_def)
  have c1: "concat Ps @ A @ concat Ms @ B @ concat Ss = concat ?s1"
    and c2: "concat Ps @ B @ concat Ms @ A @ concat Ss = concat ?s2"
    by simp_all
  have "mset (concat (map segment_records ?s1)) = mset (concat (map segment_records ?s2))"
    by (simp add: mset_concat)
  then have m: "map_of (extract_lines (concat ?s1)) = map_of (extract_lines (concat ?s2))"
    unfolding extract_lines_segments[OF seg(1)] extract_lines_segments[OF seg(2)]
    by (rule map_of_aggregate_mset)
  then have "sort (extract_lines (concat ?s1)) = sort (extract_lines (concat ?s2))"
    by (rule sort_extract_lines)
  with m show ?thesis
    unfolding c1 c2 by blast
qed

theorem swapping_meal_blocks_witness:
  "segment [''Date''] \<and> segment [''Grade''] \<and> segment [''Notes'']
   \<and> meal_block [''Beef Stew'', ''5''] \<and> meal_block [''Fish Pie'', ''Fillet'', ''7'']
   \<and> map_of (extract_lines (concat [[''Date'']] @ [''Beef Stew'', ''5''] @ concat [[''Grade'']]
                                 @ [''Fish Pie'', ''Fillet'', ''7''] @ concat [[''Notes'']]))
       = map_of (extract_lines (concat [[''Date'']] @ [''Fish Pie'', ''Fillet'', ''7'']
                                 @ concat [[''Grade'']] @ [''Beef Stew'', ''5'']
                                 @ concat [[''Notes'']]))"
proof -
  have p: "\<forall>b \<in> set [[''Date'']]. segment b"
    by code_simp
  have m: "\<forall>b \<in> set [[''Grade'']]. segment b"
    by code_simp
  have s: "\<forall>b \<in> set [[''Notes'']]. segment b"
    by code_simp
  have a: "meal_block [''Beef Stew'', ''5'']"
    by code_simp
  have b: "meal_block [''Fish Pie'', ''Fillet'', ''7'']"
    by code_simp
  show ?thesis
    using swapping_meal_blocks[OF p m s a b] p m s a b
    by simp
qed

text \<open>
  On this page the name \<open>Pasta\<close> has no quantity line of its own and takes the
  first quantity that its window meets: 5 before the two blocks \<open>Beef Stew\<close>,
  \<open>5\<close> and \<open>Fish Pie\<close>, \<open>7\<close> change places, 7 after.
\<close>

theorem swapping_meal_blocks_counterexample:
  "meal_block [''Beef Stew'', ''5''] \<and> meal_block [''Fish Pie'', ''7'']
   \<and> extract_lines ([''Pasta'', ''Grade''] @ [''Beef Stew'', ''5''] @ [''Grade''] @ [''Fish Pie'', ''7''])
       = [(''Pasta'', 5), (''Beef Meal'', 5), (''Fish Meal'', 7)]
   \<and> extract_lines ([''Pasta'', ''Grade''] @ [''Fish Pie'', ''7''] @ [''Grade''] @ [''Beef Stew'', ''5''])
       = [(''Pasta'', 7), (''Fish Meal'', 7), (''Beef Meal'', 5)]
   \<and> map_of (extract_lines ([''Pasta'', ''Grade''] @ [''Beef Stew'', ''5''] @ [''Grade''] @ [''Fish Pie'', ''7'']))
       \<noteq> map_of (extract_lines ([''Pasta'', ''Grade''] @ [''Fish Pie'', ''7''] @ [''Grade''] @ [''Beef Stew'', ''5'']))"
proof -
  have a: "meal_block [''Beef Stew'', ''5''] \<and> meal_block [''Fish Pie'', ''7'']"
    by code_simp
  have b: "extract_lines ([''Pasta'', ''Grade''] @ [''Beef Stew'', ''5''] @ [''Grade''] @ [''Fish Pie'', ''7''])
       = [(''Pasta'', 5), (''Beef Meal'', 5), (''Fish Meal'', 7)]"
    by code_simp
  have c: "extract_lines ([''Pasta'', ''Grade''] @ [''Fish Pie'', ''7''] @ [''Grade''] @ [''Beef Stew'', ''5''])
       = [(''Pasta'', 7), (''Fish Meal'', 7), (''Beef Meal'', 5)]"
    by code_simp
  have "map_of [(''Pasta'', 5::int), (''Beef Meal'', 5), (''Fish Meal'', 7)] ''Pasta''
        \<noteq> map_of [(''Pasta'', 7), (''Fish Meal'', 7), (''Beef Meal'', 5)] ''Pasta''"
    by simp
  then have d: "map_of [(''Pasta'', 5::int), (''Beef Meal'', 5), (''Fish Meal'', 7)]
        \<noteq> map_of [(''Pasta'', 7), (''Fish Meal'', 7), (''Beef Meal'', 5)]"
    by metis
  show ?thesis
    using a d unfolding b c by simp
qed

subsection \<open>The layout, for any float arithmetic\<close>

text \<open>
  What \<open>add_totals_to_page\<close> does whatever the float operations compute: it appends
  one annotation for each item of the mapping, in the sorted order of the items, and
  the annotation of item \<open>i\<close> carries the text of that item. The page text and the
  page size are kept. Equalities between the coordinates of different blocks depend
  on how the float operations round and are not stated.
\<close>

lemma add_totals_keeps_page:
  "get_text (add_totals_to_page ops page meal_totals) = get_text page
   \<and> rect_width (add_totals_to_page ops page meal_totals) = rect_width page
   \<and> rect_height (add_totals_to_page ops page meal_totals) = rect_height page
   \<and> take (length (annots page)) (annots (add_totals_to_page ops page meal_totals)) = annots page"
  by (simp add: add_totals_to_page_def Let_def)

lemma add_totals_block_text:
  assumes "i < length meal_totals"
  shows "annot_text (annots (add_totals_to_page ops page meal_totals) ! (length (annots page) + i))
         = fst (sort meal_totals ! i) @ '' Total: '' @ str_of_int (snd (sort meal_totals ! i))"
proof -
  have "annots (add_totals_to_page ops page meal_totals) ! (length (annots page) + i)
        = map (totals_annot ops (rect_width page)
                 (float_sub ops (float_sub ops (rect_height page) (float_of_int ops 90))
                    (float_of_int ops (int (length (sort meal_totals)) * 22))))
            (enumerate 0 (sort meal_totals)) ! i"
    by (simp add: add_totals_to_page_def Let_def nth_append)
  also have "\<dots> = totals_annot ops (rect_width page)
                 (float_sub ops (float_sub ops (rect_height page) (float_of_int ops 90))
                    (float_of_int ops (int (length (sort meal_totals)) * 22)))
                 (i, sort meal_totals ! i)"
    using assms by (simp add: nth_enumerate_eq)
  finally show ?thesis
    by (simp add: totals_annot_def Let_def split: prod.splits)
qed

lemma add_totals_sorted: "sorted (map fst (sort (meal_totals :: (string \<times> int) list)))"
proof -
  have "sorted (sort meal_totals)"
    by simp
  moreover have "sorted xs \<Longrightarrow> sorted (map fst xs)" for xs :: "(string \<times> int) list"
    by (induction xs) (auto simp add: less_eq_prod_def)
  ultimately show ?thesis
    by blast
qed

end
